theory Spec2Isabelle
  imports Main "HOL-Library.Sublist" "HOL-Library.Word"
begin

section \<open>Strings as the filename parser uses them\<close>

text \<open>
  Python's \<^verbatim>\<open>sub in s\<close> on strings: \<open>sub\<close> occurs in \<open>s\<close> as a contiguous block.
\<close>

fun contains :: "string \<Rightarrow> string \<Rightarrow> bool" where
  "contains sub [] = (sub = [])"
| "contains sub (c # cs) = (prefix sub (c # cs) \<or> contains sub cs)"

text \<open>
  \<^verbatim>\<open>s.split(sep, 1)\<close> for a non-empty separator: the one-element list \<open>[s]\<close> when
  \<open>sep\<close> does not occur, otherwise the text before the first occurrence and the text after it.
\<close>

fun split1 :: "string \<Rightarrow> string \<Rightarrow> string list" where
  "split1 sep [] = [[]]"
| "split1 sep (c # cs) =
     (if prefix sep (c # cs) then [[], drop (length sep) (c # cs)]
      else (case split1 sep cs of [] \<Rightarrow> [] | a # rest \<Rightarrow> (c # a) # rest))"

text \<open>
  \<^verbatim>\<open>s.rsplit(ch, 1)[0]\<close> for a single character: the text before the last \<open>ch\<close>,
  or all of \<open>s\<close> when \<open>ch\<close> does not occur.
\<close>

definition rsplit1_head :: "char \<Rightarrow> string \<Rightarrow> string" where
  "rsplit1_head ch s =
     (if ch \<in> set s then rev (tl (dropWhile (\<lambda>c. c \<noteq> ch) (rev s))) else s)"

section \<open>The regular expressions of the filename parser\<close>

text \<open>The character class \<^verbatim>\<open>[A-F0-9\-]\<close>.\<close>

definition id_char :: "char \<Rightarrow> bool" where
  "id_char c = (c \<in> set ''ABCDEF0123456789-'')"

text \<open>
  One alternative of a pattern \<^verbatim>\<open>marker([A-F0-9\-]+)\<close> tried at the start of \<open>s\<close>:
  the marker literally, then the greedy non-empty run; the result is group 1.
\<close>

definition match_here :: "string \<Rightarrow> string \<Rightarrow> string option" where
  "match_here m s =
     (if prefix m s
      then (case takeWhile id_char (drop (length m) s) of [] \<Rightarrow> None | r # rs \<Rightarrow> Some (r # rs))
      else None)"

text \<open>The alternatives of a group \<^verbatim>\<open>(?:a|b)\<close> are tried in the order written.\<close>

fun match_alts :: "string list \<Rightarrow> string \<Rightarrow> string option" where
  "match_alts [] s = None"
| "match_alts (m # ms) s =
     (case match_here m s of Some r \<Rightarrow> Some r | None \<Rightarrow> match_alts ms s)"

text \<open>
  \<^verbatim>\<open>re.search\<close>: the match at the leftmost start position that has one; it returns
  group 1 of that match, and \<open>None\<close> when no position matches.
\<close>

fun re_search :: "string list \<Rightarrow> string \<Rightarrow> string option" where
  "re_search ms [] = match_alts ms []"
| "re_search ms (c # cs) =
     (case match_alts ms (c # cs) of Some r \<Rightarrow> Some r | None \<Rightarrow> re_search ms cs)"

section \<open>\<^verbatim>\<open>extract_media_id_from_filename\<close> (media_id_extractor.py)\<close>

definition extract_media_id_from_filename :: "string \<Rightarrow> string option" where
  "extract_media_id_from_filename filename =
     (if contains ''thumbnail~'' filename then None
      else
        (case (if contains ''b~'' filename
               then (let parts = split1 ''b~'' filename
                     in if length parts > 1
                        then Some (''b~'' @ rsplit1_head (CHR ''.'') (parts ! 1))
                        else None)
               else None) of
           Some r \<Rightarrow> Some r
         | None \<Rightarrow>
            (case (if contains ''_media~zip-'' filename
                   then re_search [''media~zip-''] filename else None) of
               Some g \<Rightarrow> Some (''media~zip-'' @ g)
             | None \<Rightarrow>
                (case re_search [''media~'', ''overlay~''] filename of
                   Some g \<Rightarrow>
                     Some ((if contains ''media~'' filename then ''media'' else ''overlay'')
                           @ ''~'' @ g)
                 | None \<Rightarrow> None))))"

section \<open>Message values (the JSON data the matcher reads)\<close>

text \<open>
  A float of the JSON data: a finite double is \<open>m * 2 ^ e\<close> for integers \<open>m\<close> and \<open>e\<close>;
  the decoder also produces the infinities and NaN.
\<close>

datatype pyfloat = Finite int int | Infinity bool | NaN

datatype pyval =
    PNone
  | PBool bool
  | PInt int
  | PFloat pyfloat
  | PStr string
  | PList "pyval list"
  | PDict "(string \<times> pyval) list"

datatype py_exc = TypeError | ValueError | OverflowError | IndexError

text \<open>Truth value of an object, as \<^verbatim>\<open>if x:\<close> and \<^verbatim>\<open>not x\<close> test it.\<close>

fun truthy :: "pyval \<Rightarrow> bool" where
  "truthy PNone = False"
| "truthy (PBool b) = b"
| "truthy (PInt i) = (i \<noteq> 0)"
| "truthy (PFloat (Finite m e)) = (m \<noteq> 0)"
| "truthy (PFloat (Infinity neg)) = True"
| "truthy (PFloat NaN) = True"
| "truthy (PStr s) = (s \<noteq> [])"
| "truthy (PList xs) = (xs \<noteq> [])"
| "truthy (PDict kvs) = (kvs \<noteq> [])"

text \<open>\<^verbatim>\<open>d.get(key)\<close>: the value stored under the key, \<^verbatim>\<open>None\<close> when the key is absent.\<close>

definition dict_get :: "(string \<times> pyval) list \<Rightarrow> string \<Rightarrow> pyval" where
  "dict_get d k = (case map_of d k of None \<Rightarrow> PNone | Some v \<Rightarrow> v)"

text \<open>
  \<^verbatim>\<open>int(x)\<close>. A float is truncated towards zero; an infinity raises OverflowError, NaN
  raises ValueError. The parsing of a string is the built-in's and is taken as the
  parameter \<open>int_of_str\<close> (\<open>None\<close> where the built-in raises ValueError). Lists, dictionaries
  and \<^verbatim>\<open>None\<close> raise TypeError.
\<close>

fun py_int :: "(string \<Rightarrow> int option) \<Rightarrow> pyval \<Rightarrow> py_exc + int" where
  "py_int int_of_str PNone = Inl TypeError"
| "py_int int_of_str (PBool b) = Inr (if b then 1 else 0)"
| "py_int int_of_str (PInt i) = Inr i"
| "py_int int_of_str (PFloat (Finite m e)) =
     Inr (if 0 \<le> e then m * 2 ^ nat e else sgn m * (\<bar>m\<bar> div 2 ^ nat (- e)))"
| "py_int int_of_str (PFloat (Infinity neg)) = Inl OverflowError"
| "py_int int_of_str (PFloat NaN) = Inl ValueError"
| "py_int int_of_str (PStr s) =
     (case int_of_str s of None \<Rightarrow> Inl ValueError | Some i \<Rightarrow> Inr i)"
| "py_int int_of_str (PList xs) = Inl TypeError"
| "py_int int_of_str (PDict kvs) = Inl TypeError"

text \<open>\<^verbatim>\<open>xs[i]\<close>: a negative index counts from the end; out of range raises IndexError.\<close>

definition py_index :: "'a list \<Rightarrow> int \<Rightarrow> py_exc + 'a" where
  "py_index xs i =
     (if 0 \<le> i \<and> i < int (length xs) then Inr (xs ! nat i)
      else if i < 0 \<and> - int (length xs) \<le> i then Inr (xs ! nat (int (length xs) + i))
      else Inl IndexError)"

section \<open>\<^verbatim>\<open>build_millisecond_index\<close> (timestamp_matcher.py)\<close>

text \<open>An index entry \<^verbatim>\<open>(timestamp_ms, conv_id, idx, message)\<close>.\<close>

type_synonym index_entry = "int \<times> string \<times> nat \<times> pyval"

text \<open>
  The body of the inner loop for one element of a conversation's list: the entries it
  appends (none or one), or the exception that leaves the function. TypeError and
  ValueError of the conversion are caught (\<^verbatim>\<open>continue\<close>); nothing else is.
\<close>

definition index_message ::
  "(string \<Rightarrow> int option) \<Rightarrow> string \<Rightarrow> nat \<Rightarrow> pyval \<Rightarrow> py_exc + index_entry list" where
  "index_message int_of_str conv_id idx message =
     (case message of
        PDict d \<Rightarrow>
          if truthy (dict_get d ''matched_media_files'') then Inr []
          else
            (let timestamp_ms = dict_get d ''Created(microseconds)''
             in if \<not> truthy timestamp_ms then Inr []
                else (case py_int int_of_str timestamp_ms of
                        Inl TypeError \<Rightarrow> Inr []
                      | Inl ValueError \<Rightarrow> Inr []
                      | Inl e \<Rightarrow> Inl e
                      | Inr t \<Rightarrow> Inr [(t, conv_id, idx, message)]))
      | _ \<Rightarrow> Inr [])"

text \<open>\<^verbatim>\<open>for idx, message in enumerate(message_list)\<close>, from position \<open>idx\<close> on.\<close>

fun index_message_list ::
  "(string \<Rightarrow> int option) \<Rightarrow> string \<Rightarrow> nat \<Rightarrow> pyval list \<Rightarrow> py_exc + index_entry list" where
  "index_message_list int_of_str conv_id idx [] = Inr []"
| "index_message_list int_of_str conv_id idx (message # rest) =
     (case index_message int_of_str conv_id idx message of
        Inl e \<Rightarrow> Inl e
      | Inr es \<Rightarrow>
          (case index_message_list int_of_str conv_id (Suc idx) rest of
             Inl e \<Rightarrow> Inl e
           | Inr es' \<Rightarrow> Inr (es @ es')))"

text \<open>
  \<^verbatim>\<open>for conv_id, message_list in messages.items()\<close>: the dictionary in its iteration order;
  a value that is not a list is skipped.
\<close>

fun index_conversations ::
  "(string \<Rightarrow> int option) \<Rightarrow> (string \<times> pyval) list \<Rightarrow> py_exc + index_entry list" where
  "index_conversations int_of_str [] = Inr []"
| "index_conversations int_of_str ((conv_id, message_list) # rest) =
     (case (case message_list of
              PList ms \<Rightarrow> index_message_list int_of_str conv_id 0 ms
            | _ \<Rightarrow> Inr []) of
        Inl e \<Rightarrow> Inl e
      | Inr es \<Rightarrow>
          (case index_conversations int_of_str rest of
             Inl e \<Rightarrow> Inl e
           | Inr es' \<Rightarrow> Inr (es @ es')))"

text \<open>The list is then sorted by its first component; \<^verbatim>\<open>list.sort\<close> is stable.\<close>

definition build_millisecond_index ::
  "(string \<Rightarrow> int option) \<Rightarrow> (string \<times> pyval) list \<Rightarrow> py_exc + index_entry list" where
  "build_millisecond_index int_of_str messages =
     (case index_conversations int_of_str messages of
        Inl e \<Rightarrow> Inl e
      | Inr timestamp_index \<Rightarrow> Inr (sort_key fst timestamp_index))"

text \<open>
  What it means for an index entry \<open>(ts, conv_id, idx, m)\<close> to refer to a message of the corpus
  that carries no \<^verbatim>\<open>matched_media_files\<close> marker: conversation \<open>conv_id\<close> is a list, \<open>m\<close> is
  its element at position \<open>idx\<close>, a dictionary whose marker is absent or falsy.
\<close>

definition unmarked_message_at :: "(string \<times> pyval) list \<Rightarrow> string \<Rightarrow> nat \<Rightarrow> pyval \<Rightarrow> bool" where
  "unmarked_message_at messages conv_id idx m \<longleftrightarrow>
     (\<exists>ms d. (conv_id, PList ms) \<in> set messages \<and> idx < length ms \<and> ms ! idx = m
        \<and> m = PDict d \<and> \<not> truthy (dict_get d ''matched_media_files''))"

section \<open>\<^verbatim>\<open>find_closest_message_binary\<close> (timestamp_matcher.py)\<close>

text \<open>A candidate \<^verbatim>\<open>(conv_id, msg_idx, msg, diff_ms)\<close>.\<close>

type_synonym candidate = "string \<times> nat \<times> pyval \<times> int"

text \<open>The binary search loop; it returns the final \<open>(left, right)\<close>.\<close>

function binary_search ::
  "int \<Rightarrow> index_entry list \<Rightarrow> int \<Rightarrow> int \<Rightarrow> py_exc + (int \<times> int)" where
  "binary_search mp4_timestamp_ms timestamp_index left right =
     (if left \<le> right
      then (case py_index timestamp_index ((left + right) div 2) of
              Inl e \<Rightarrow> Inl e
            | Inr entry \<Rightarrow>
                if fst entry < mp4_timestamp_ms
                then binary_search mp4_timestamp_ms timestamp_index ((left + right) div 2 + 1) right
                else binary_search mp4_timestamp_ms timestamp_index left ((left + right) div 2 - 1))
      else Inr (left, right))"
  by pat_completeness auto
termination
  by (relation "measure (\<lambda>(t, ix, left, right). nat (right - left + 1))") auto

text \<open>The walk over the earlier messages, from \<open>idx\<close> downwards.\<close>

function walk_left ::
  "int \<Rightarrow> index_entry list \<Rightarrow> int \<Rightarrow> int \<Rightarrow> candidate list \<Rightarrow> py_exc + candidate list" where
  "walk_left mp4_timestamp_ms timestamp_index threshold_ms idx candidates =
     (if idx \<ge> 0
      then (case py_index timestamp_index idx of
              Inl e \<Rightarrow> Inl e
            | Inr (ts_ms, conv_id, msg_idx, msg) \<Rightarrow>
                if mp4_timestamp_ms - ts_ms > threshold_ms then Inr candidates
                else walk_left mp4_timestamp_ms timestamp_index threshold_ms (idx - 1)
                       (candidates @ [(conv_id, msg_idx, msg, mp4_timestamp_ms - ts_ms)]))
      else Inr candidates)"
  by pat_completeness auto
termination
  by (relation "measure (\<lambda>(t, ix, thr, idx, cs). nat (idx + 1))") auto

text \<open>The walk over the later messages, from \<open>idx\<close> upwards; the difference is stored negated.\<close>

function walk_right ::
  "int \<Rightarrow> index_entry list \<Rightarrow> int \<Rightarrow> int \<Rightarrow> candidate list \<Rightarrow> py_exc + candidate list" where
  "walk_right mp4_timestamp_ms timestamp_index threshold_ms idx candidates =
     (if idx < int (length timestamp_index)
      then (case py_index timestamp_index idx of
              Inl e \<Rightarrow> Inl e
            | Inr (ts_ms, conv_id, msg_idx, msg) \<Rightarrow>
                if ts_ms - mp4_timestamp_ms > threshold_ms then Inr candidates
                else walk_right mp4_timestamp_ms timestamp_index threshold_ms (idx + 1)
                       (candidates @ [(conv_id, msg_idx, msg, - (ts_ms - mp4_timestamp_ms))]))
      else Inr candidates)"
  by pat_completeness auto
termination
  by (relation "measure (\<lambda>(t, ix, thr, idx, cs). nat (int (length ix) - idx))") auto

text \<open>
  \<^verbatim>\<open>min(xs, key=k)\<close> on a non-empty list, begun at its first element: a later element
  replaces the current one only when its key is strictly smaller.
\<close>

fun min_by_key :: "('a \<Rightarrow> int) \<Rightarrow> 'a \<Rightarrow> 'a list \<Rightarrow> 'a" where
  "min_by_key k best [] = best"
| "min_by_key k best (x # xs) = min_by_key k (if k x < k best then x else best) xs"

definition diff_of :: "candidate \<Rightarrow> int" where
  "diff_of c = snd (snd (snd c))"

definition find_closest_message_binary ::
  "int \<Rightarrow> index_entry list \<Rightarrow> int \<Rightarrow> py_exc + candidate option" where
  "find_closest_message_binary mp4_timestamp_ms timestamp_index threshold_ms =
     (if timestamp_index = [] then Inr None
      else
        (case binary_search mp4_timestamp_ms timestamp_index 0
                (int (length timestamp_index) - 1) of
           Inl e \<Rightarrow> Inl e
         | Inr (left, right) \<Rightarrow>
            (case walk_left mp4_timestamp_ms timestamp_index threshold_ms right [] of
               Inl e \<Rightarrow> Inl e
             | Inr cands_left \<Rightarrow>
                (case walk_right mp4_timestamp_ms timestamp_index threshold_ms left cands_left of
                   Inl e \<Rightarrow> Inl e
                 | Inr candidates \<Rightarrow>
                    (case candidates of
                       [] \<Rightarrow> Inr None
                     | c # cs \<Rightarrow> Inr (Some (min_by_key (\<lambda>x. \<bar>diff_of x\<bar>) c cs)))))))"

text \<open>
  The candidate either walk builds from an index entry: the left walk stores
  \<open>target - ts\<close>, the right walk stores \<open>- (ts - target)\<close>, the same number.
\<close>

definition candidate_of :: "int \<Rightarrow> index_entry \<Rightarrow> candidate" where
  "candidate_of t e = (fst (snd e), fst (snd (snd e)), snd (snd (snd e)), t - fst e)"

section \<open>MP4 timestamp extraction (mp4_processor.py)\<close>

type_synonym byte = "8 word"

text \<open>
  A file as the matcher sees it: its name, its bytes (\<open>None\<close> when it cannot be opened) and
  what \<^verbatim>\<open>parse_mp4_timestamp_ffprobe\<close> returns for it; that function runs an external
  program, so its result is part of the environment.
\<close>

record mp4_file =
  name :: string
  content :: "byte list option"
  ffprobe_ms :: "int option"

definition ATOM_HEADER_SIZE :: nat where
  "ATOM_HEADER_SIZE = 8"

definition QUICKTIME_EPOCH_ADJUSTER :: int where
  "QUICKTIME_EPOCH_ADJUSTER = 2082844800"

text \<open>\<^verbatim>\<open>struct.unpack('>I', b)\<close> and \<^verbatim>\<open>'>Q'\<close>: the big-endian unsigned value of the bytes.\<close>

definition be_uint :: "byte list \<Rightarrow> int" where
  "be_uint bs = foldl (\<lambda>acc b. acc * 256 + int (unat b)) 0 bs"

text \<open>\<^verbatim>\<open>f.read(n)\<close> at position \<open>pos\<close>: up to \<open>n\<close> bytes, fewer at the end of the file.\<close>

definition read_at :: "byte list \<Rightarrow> nat \<Rightarrow> nat \<Rightarrow> byte list" where
  "read_at bytes pos n = take n (drop pos bytes)"

text \<open>
  \<^verbatim>\<open>f.seek(offset, 1)\<close>: the new position, or \<open>None\<close> where the call raises (an offset or
  a position outside the signed 64-bit range, or a negative position).
\<close>

definition seek_cur :: "nat \<Rightarrow> int \<Rightarrow> nat option" where
  "seek_cur pos offset =
     (if offset < - (2 ^ 63) \<or> 2 ^ 63 \<le> offset \<or> int pos + offset < 0
         \<or> 2 ^ 63 \<le> int pos + offset
      then None else Some (nat (int pos + offset)))"

text \<open>
  The search for the \<^verbatim>\<open>moov\<close> atom. The result is \<open>Some (Some pos)\<close> with the position
  after the \<^verbatim>\<open>moov\<close> header, \<open>Some None\<close> where the function returns \<^verbatim>\<open>None\<close> (also
  through its exception handlers), and \<open>None\<close> where the loop does not end.
\<close>

partial_function (option) find_moov :: "byte list \<Rightarrow> nat \<Rightarrow> nat option option" where
  "find_moov bytes pos =
     (let atom_header = read_at bytes pos ATOM_HEADER_SIZE
      in if length atom_header < ATOM_HEADER_SIZE then Some None
         else if drop 4 atom_header = [0x6D, 0x6F, 0x6F, 0x76] then Some (Some (pos + 8))
         else
           (let atom_size = be_uint (take 4 atom_header)
            in if atom_size = 0 then Some None
               else if atom_size = 1
               then (let ext = read_at bytes (pos + 8) 8
                     in if length ext < 8 then Some None
                        else (case seek_cur (pos + 16) (be_uint ext - 16) of
                                None \<Rightarrow> Some None
                              | Some pos' \<Rightarrow> find_moov bytes pos'))
               else (case seek_cur (pos + 8) (atom_size - 8) of
                       None \<Rightarrow> Some None
                     | Some pos' \<Rightarrow> find_moov bytes pos')))"

declare find_moov.simps [code]

text \<open>
  After the \<^verbatim>\<open>moov\<close> header: the creation-time field of an \<^verbatim>\<open>mvhd\<close> atom that comes
  first, \<open>None\<close> where the function returns \<^verbatim>\<open>None\<close> before it has the field (\<^verbatim>\<open>cmov\<close>, another
  atom, a short read).
\<close>

definition mvhd_creation_time :: "byte list \<Rightarrow> nat \<Rightarrow> int option" where
  "mvhd_creation_time bytes pos =
     (let atom_header = read_at bytes pos ATOM_HEADER_SIZE
      in if drop 4 atom_header = [0x63, 0x6D, 0x6F, 0x76] then None
         else if drop 4 atom_header \<noteq> [0x6D, 0x76, 0x68, 0x64] then None
         else
           (case read_at bytes (pos + 8) 1 of
              [] \<Rightarrow> None
            | version # _ \<Rightarrow>
                (case seek_cur (pos + 9) 3 of
                   None \<Rightarrow> None
                 | Some pos' \<Rightarrow>
                     if version = 0
                     then (let b = read_at bytes pos' 4
                           in if length b = 4 then Some (be_uint b) else None)
                     else (let b = read_at bytes pos' 8
                           in if length b = 8 then Some (be_uint b) else None))))"

text \<open>The conversion at the end of the parser.\<close>

definition unix_ms_of_creation_time :: "int \<Rightarrow> int option" where
  "unix_ms_of_creation_time creation_time =
     (if creation_time > 0 then Some ((creation_time - QUICKTIME_EPOCH_ADJUSTER) * 1000)
      else None)"

definition parse_mp4_timestamp_binary :: "byte list option \<Rightarrow> int option option" where
  "parse_mp4_timestamp_binary file_bytes =
     (case file_bytes of
        None \<Rightarrow> Some None
      | Some bytes \<Rightarrow>
          (case find_moov bytes 0 of
             None \<Rightarrow> None
           | Some None \<Rightarrow> Some None
           | Some (Some pos) \<Rightarrow>
               (case mvhd_creation_time bytes pos of
                  None \<Rightarrow> Some None
                | Some creation_time \<Rightarrow> Some (unix_ms_of_creation_time creation_time))))"

text \<open>\<^verbatim>\<open>extract_mp4_timestamp\<close> with its default \<^verbatim>\<open>use_ffprobe_fallback=True\<close>.\<close>

definition extract_mp4_timestamp :: "mp4_file \<Rightarrow> int option option" where
  "extract_mp4_timestamp f =
     (case parse_mp4_timestamp_binary (content f) of
        None \<Rightarrow> None
      | Some None \<Rightarrow> Some (ffprobe_ms f)
      | Some (Some timestamp) \<Rightarrow> Some (Some timestamp))"

section \<open>\<^verbatim>\<open>match_mp4_timestamps\<close> (timestamp_matcher.py)\<close>

type_synonym matches = "string \<rightharpoonup> (string \<times> nat \<times> int)"

text \<open>
  The loop over the files, writing into the dictionary \<open>matches\<close>. The outer \<open>None\<close> is an
  extraction that does not return.
\<close>

fun match_files ::
  "index_entry list \<Rightarrow> int \<Rightarrow> mp4_file list \<Rightarrow> matches \<Rightarrow> (py_exc + matches) option" where
  "match_files timestamp_index threshold_ms [] matches = Some (Inr matches)"
| "match_files timestamp_index threshold_ms (mp4_file # rest) matches =
     (case extract_mp4_timestamp mp4_file of
        None \<Rightarrow> None
      | Some None \<Rightarrow> match_files timestamp_index threshold_ms rest matches
      | Some (Some timestamp_ms) \<Rightarrow>
          if timestamp_ms = 0 then match_files timestamp_index threshold_ms rest matches
          else
            (case find_closest_message_binary timestamp_ms timestamp_index threshold_ms of
               Inl e \<Rightarrow> Some (Inl e)
             | Inr None \<Rightarrow> match_files timestamp_index threshold_ms rest matches
             | Inr (Some (conv_id, msg_idx, msg, diff_ms)) \<Rightarrow>
                 match_files timestamp_index threshold_ms rest
                   (matches(name mp4_file \<mapsto> (conv_id, msg_idx, diff_ms)))))"

text \<open>
  The sequential branch runs the loop over \<open>mp4_files\<close> in order. The pooled branch (taken
  when \<open>use_parallel\<close> holds and there are more than 10 files) computes the same per-file
  results and writes them in the order the futures complete: the loop over \<open>completed\<close>,
  a reordering of \<open>mp4_files\<close>.
\<close>

definition match_mp4_timestamps ::
  "(string \<Rightarrow> int option) \<Rightarrow> mp4_file list \<Rightarrow> mp4_file list \<Rightarrow> (string \<times> pyval) list
     \<Rightarrow> int \<Rightarrow> bool \<Rightarrow> (py_exc + matches) option" where
  "match_mp4_timestamps int_of_str mp4_files completed messages threshold_seconds use_parallel =
     (case build_millisecond_index int_of_str messages of
        Inl e \<Rightarrow> Some (Inl e)
      | Inr timestamp_index \<Rightarrow>
          if timestamp_index = [] then Some (Inr Map.empty)
          else if use_parallel \<and> length mp4_files > 10
          then match_files timestamp_index (threshold_seconds * 1000) completed Map.empty
          else match_files timestamp_index (threshold_seconds * 1000) mp4_files Map.empty)"

text \<open>The entry of the returned dictionary for a file name; \<open>None\<close> also when the call
  does not return a dictionary.\<close>

definition matched_to :: "(py_exc + matches) option \<Rightarrow> string \<Rightarrow> (string \<times> nat \<times> int) option" where
  "matched_to result filename = (case result of Some (Inr m) \<Rightarrow> m filename | _ \<Rightarrow> None)"

section \<open>The derived identifier sets of \<^verbatim>\<open>run_phase1\<close> (orchestrator.py)\<close>

text \<open>
  \<open>all_media_ids\<close> is the set of identifiers extracted from the messages, \<open>media_index\<close>
  the dictionary from identifier to filename; \<^verbatim>\<open>set(media_index.keys())\<close> is its domain.
\<close>

definition matched_ids :: "string set \<Rightarrow> (string \<rightharpoonup> string) \<Rightarrow> string set" where
  "matched_ids all_media_ids media_index = all_media_ids \<inter> dom media_index"

definition unmatched_ids :: "string set \<Rightarrow> (string \<rightharpoonup> string) \<Rightarrow> string set" where
  "unmatched_ids all_media_ids media_index = all_media_ids - dom media_index"

definition orphaned_files :: "string set \<Rightarrow> (string \<rightharpoonup> string) \<Rightarrow> string set" where
  "orphaned_files all_media_ids media_index = dom media_index - all_media_ids"

section \<open>Facts about the string helpers\<close>

lemma contains_iff_sublist: "contains sub s \<longleftrightarrow> sublist sub s"
  by (induction s) (auto simp: sublist_Cons_right)

lemma contains_append: "contains sub (pre @ sub @ post)"
  by (simp add: contains_iff_sublist)

text \<open>C7: a filename containing \<^verbatim>\<open>thumbnail~\<close> anywhere yields no identifier,
  whatever other marker it also contains.\<close>

theorem thumbnail_excluded:
  "contains ''thumbnail~'' filename \<Longrightarrow> extract_media_id_from_filename filename = None"
  by (simp add: extract_media_id_from_filename_def)

theorem thumbnail_excluded_witness:
  "contains ''thumbnail~'' ''2025-07-27_thumbnail~b~xy_media~zip-AB_overlay~CD.jpeg''
   \<and> extract_media_id_from_filename
        ''2025-07-27_thumbnail~b~xy_media~zip-AB_overlay~CD.jpeg'' = None"
proof -
  have h: "contains ''thumbnail~'' ''2025-07-27_thumbnail~b~xy_media~zip-AB_overlay~CD.jpeg''"
    by simp
  show ?thesis using h thumbnail_excluded [OF h] by simp
qed


section \<open>The zip pattern\<close>

lemma match_here_run:
  assumes "run \<noteq> []" "\<forall>c\<in>set run. id_char c" "rest = [] \<or> \<not> id_char (hd rest)"
  shows "match_here m (m @ run @ rest) = Some run"
proof -
  have "takeWhile id_char (run @ rest) = run"
    using assms(2,3) by (cases rest) (auto simp: takeWhile_append2 takeWhile_eq_Nil_iff)
  with assms(1) show ?thesis
    by (cases run) (auto simp: match_here_def)
qed

lemma match_here_None:
  assumes "\<And>r. s = m @ r \<Longrightarrow> takeWhile id_char r = []"
  shows "match_here m s = None"
proof (cases "prefix m s")
  case True
  then obtain r where r: "s = m @ r" by (auto simp: prefix_def)
  with assms have "takeWhile id_char r = []" by blast
  with r show ?thesis by (simp add: match_here_def)
next
  case False
  then show ?thesis by (simp add: match_here_def)
qed

lemma re_search_leftmost:
  assumes "run \<noteq> []" "\<forall>c\<in>set run. id_char c" "rest = [] \<or> \<not> id_char (hd rest)"
    and "\<forall>p r. length p < length pre \<and> pre @ m @ run @ rest = p @ m @ r
           \<longrightarrow> takeWhile id_char r = []"
  shows "re_search [m] (pre @ m @ run @ rest) = Some run"
  using assms(4)
proof (induction pre)
  case Nil
  have "match_alts [m] (m @ run @ rest) = Some run"
    using match_here_run [OF assms(1-3)] by simp
  then show ?case using assms(1) by (cases "m @ run @ rest") auto
next
  case (Cons a pre)
  have "match_here m (a # pre @ m @ run @ rest) = None"
  proof (rule match_here_None)
    fix r assume "a # pre @ m @ run @ rest = m @ r"
    then show "takeWhile id_char r = []"
      using Cons.prems [rule_format, of "[]" r] by simp
  qed
  moreover have "re_search [m] (pre @ m @ run @ rest) = Some run"
  proof (rule Cons.IH, intro allI impI, elim conjE)
    fix p r assume "length p < length pre" "pre @ m @ run @ rest = p @ m @ r"
    then show "takeWhile id_char r = []"
      using Cons.prems [rule_format, of "a # p" r] by simp
  qed
  ultimately show ?case by simp
qed

lemma no_earlier_matchI:
  assumes "list_all (\<lambda>k. match_here m (drop k f) = None) [0..<n]"
  shows "\<forall>p r. length p < n \<and> f = p @ m @ r \<longrightarrow> takeWhile id_char r = []"
proof (intro allI impI, elim conjE)
  fix p r assume p: "length p < n" and f: "f = p @ m @ r"
  from assms p have "match_here m (drop (length p) f) = None"
    by (simp add: list_all_iff)
  with f show "takeWhile id_char r = []"
    by (simp add: match_here_def split: list.splits)
qed

lemma zip_not_media:
  assumes "g \<noteq> []" "\<forall>c\<in>set g. id_char c"
  shows "''media~zip-'' @ run \<noteq> ''media~'' @ g"
proof
  assume "''media~zip-'' @ run = ''media~'' @ g"
  then have "g = ''zip-'' @ run" by simp
  with assms(2) have "id_char (CHR ''z'')" by simp
  then show False by (simp add: id_char_def)
qed

text \<open>C2 (amended): for a filename without \<^verbatim>\<open>thumbnail~\<close> and without \<^verbatim>\<open>b~\<close> that contains
  \<^verbatim>\<open>_media~zip-\<close> (the marker preceded by an underscore), the leftmost occurrence of
  \<^verbatim>\<open>media~zip-\<close> that is followed by a non-empty run of \<^verbatim>\<open>[A-F0-9-]\<close> gives the identifier
  \<^verbatim>\<open>media~zip-\<close> plus that run, which is never \<^verbatim>\<open>media~\<close> plus a run of such characters.\<close>

theorem zip_marker_yields_zip_id:
  assumes "\<not> contains ''thumbnail~'' filename" and "\<not> contains ''b~'' filename"
    and "contains ''_media~zip-'' filename"
    and "filename = pre @ ''media~zip-'' @ run @ rest"
    and "run \<noteq> []" and "\<forall>c\<in>set run. id_char c" and "rest = [] \<or> \<not> id_char (hd rest)"
    and "\<forall>p r. length p < length pre \<and> filename = p @ ''media~zip-'' @ r
           \<longrightarrow> takeWhile id_char r = []"
  shows "extract_media_id_from_filename filename = Some (''media~zip-'' @ run)
         \<and> (\<forall>g. g \<noteq> [] \<and> (\<forall>c\<in>set g. id_char c)
               \<longrightarrow> extract_media_id_from_filename filename \<noteq> Some (''media~'' @ g))"
proof -
  have "re_search [''media~zip-''] filename = Some run"
    using re_search_leftmost [OF assms(5-7), of pre "''media~zip-''"] assms(4,8) by simp
  with assms(1-3) have r: "extract_media_id_from_filename filename = Some (''media~zip-'' @ run)"
    by (simp add: extract_media_id_from_filename_def)
  with zip_not_media show ?thesis by auto
qed

theorem zip_marker_yields_zip_id_witness:
  "\<not> contains ''thumbnail~'' ''2025-07-30_media~zip-xy_media~zip-C63E-0109.mp4''
   \<and> \<not> contains ''b~'' ''2025-07-30_media~zip-xy_media~zip-C63E-0109.mp4''
   \<and> contains ''_media~zip-'' ''2025-07-30_media~zip-xy_media~zip-C63E-0109.mp4''
   \<and> list_all id_char ''C63E-0109''
   \<and> extract_media_id_from_filename ''2025-07-30_media~zip-xy_media~zip-C63E-0109.mp4''
       = Some (''media~zip-'' @ ''C63E-0109'')
   \<and> extract_media_id_from_filename ''2025-07-30_media~zip-xy_media~zip-C63E-0109.mp4''
       \<noteq> Some (''media~'' @ ''C63E-0109'')"
proof -
  let ?f = "''2025-07-30_media~zip-xy_media~zip-C63E-0109.mp4''"
  have 1: "\<not> contains ''thumbnail~'' ?f" by simp
  have 2: "\<not> contains ''b~'' ?f" by simp
  have 3: "contains ''_media~zip-'' ?f" by simp
  have 4: "?f = ''2025-07-30_media~zip-xy_'' @ ''media~zip-'' @ ''C63E-0109'' @ ''.mp4''" by simp
  have 5: "''C63E-0109'' \<noteq> []" by simp
  have la: "list_all id_char ''C63E-0109''" by (simp add: id_char_def)
  then have 6: "\<forall>c\<in>set ''C63E-0109''. id_char c" by (simp add: list_all_iff)
  have 7: "''.mp4'' = [] \<or> \<not> id_char (hd ''.mp4'')" by (simp add: id_char_def)
  have "list_all (\<lambda>k. match_here ''media~zip-'' (drop k ?f) = None)
          [0..<length ''2025-07-30_media~zip-xy_'']"
    by (simp add: upt_rec match_here_def id_char_def)
  then have 8: "\<forall>p r. length p < length ''2025-07-30_media~zip-xy_'' \<and> ?f = p @ ''media~zip-'' @ r
                  \<longrightarrow> takeWhile id_char r = []"
    by (rule no_earlier_matchI)
  note r = zip_marker_yields_zip_id [OF 1 2 3 4 5 6 7 8]
  from r have a: "extract_media_id_from_filename ?f = Some (''media~zip-'' @ ''C63E-0109'')"
    by (rule conjunct1)
  from r 5 6 have b: "extract_media_id_from_filename ?f \<noteq> Some (''media~'' @ ''C63E-0109'')"
    by blast
  show ?thesis by (intro conjI 1 2 3 la a b)
qed

text \<open>C2 as stated fails when the marker is not preceded by an underscore: the zip step is
  skipped and the generic pattern finds no run after \<^verbatim>\<open>media~\<close>.\<close>

theorem zip_without_underscore_counterexample:
  "\<not> contains ''thumbnail~'' ''media~zip-C63E-0109.mp4''
   \<and> \<not> contains ''b~'' ''media~zip-C63E-0109.mp4''
   \<and> ''media~zip-C63E-0109.mp4'' = [] @ ''media~zip-'' @ ''C63E-0109'' @ ''.mp4''
   \<and> list_all id_char ''C63E-0109''
   \<and> extract_media_id_from_filename ''media~zip-C63E-0109.mp4'' = None"
  by (simp add: extract_media_id_from_filename_def match_here_def id_char_def)

section \<open>The generic pattern\<close>

text \<open>C4 fails on the code: the tag is chosen by whether \<^verbatim>\<open>media~\<close> occurs anywhere in the
  filename, not by the marker that matched. Here the only match of the pattern is at
  \<^verbatim>\<open>overlay~\<close>, the filename has no thumbnail, blob or zip marker, and the identifier
  returned is tagged \<^verbatim>\<open>media~\<close>.\<close>

theorem overlay_match_tagged_media:
  "\<not> contains ''thumbnail~'' ''2025-07-27_overlay~7E80A0BA_media~.webp''
   \<and> \<not> contains ''b~'' ''2025-07-27_overlay~7E80A0BA_media~.webp''
   \<and> \<not> contains ''media~zip-'' ''2025-07-27_overlay~7E80A0BA_media~.webp''
   \<and> re_search [''media~''] ''2025-07-27_overlay~7E80A0BA_media~.webp'' = None
   \<and> re_search [''media~'', ''overlay~''] ''2025-07-27_overlay~7E80A0BA_media~.webp''
       = Some ''7E80A0BA''
   \<and> extract_media_id_from_filename ''2025-07-27_overlay~7E80A0BA_media~.webp''
       = Some ''media~7E80A0BA''"
  by (simp add: extract_media_id_from_filename_def match_here_def id_char_def)

section \<open>The derived identifier sets\<close>

text \<open>C8: the matched and the unmatched identifiers partition the identifier set; they are
  its intersection with and its difference from the index keys, and the orphaned files are
  the index keys outside the identifier set.\<close>

theorem id_sets_partition:
  "matched_ids all_media_ids media_index \<union> unmatched_ids all_media_ids media_index = all_media_ids
   \<and> matched_ids all_media_ids media_index \<inter> unmatched_ids all_media_ids media_index = {}
   \<and> matched_ids all_media_ids media_index = all_media_ids \<inter> dom media_index
   \<and> unmatched_ids all_media_ids media_index = all_media_ids - dom media_index
   \<and> orphaned_files all_media_ids media_index = dom media_index - all_media_ids"
  by (auto simp: matched_ids_def unmatched_ids_def orphaned_files_def)

section \<open>The closest-message search\<close>

lemma py_index_in_range: "0 \<le> i \<Longrightarrow> i < int (length xs) \<Longrightarrow> py_index xs i = Inr (xs ! nat i)"
  by (simp add: py_index_def)

lemma binary_search_split:
  assumes "sorted (map fst ix)" "0 \<le> left" "right < int (length ix)" "left \<le> right + 1"
    and "\<forall>i. 0 \<le> i \<and> i < left \<longrightarrow> fst (ix ! nat i) < t"
    and "\<forall>i. right < i \<and> i < int (length ix) \<longrightarrow> t \<le> fst (ix ! nat i)"
  shows "\<exists>l. binary_search t ix left right = Inr (l, l - 1) \<and> 0 \<le> l \<and> l \<le> int (length ix)
           \<and> (\<forall>i. 0 \<le> i \<and> i < l \<longrightarrow> fst (ix ! nat i) < t)
           \<and> (\<forall>i. l \<le> i \<and> i < int (length ix) \<longrightarrow> t \<le> fst (ix ! nat i))"
  using assms
proof (induction t ix left right rule: binary_search.induct)
  case (1 t ix left right)
  show ?case
  proof (cases "left \<le> right")
    case False
    with "1.prems" have "right = left - 1" by simp
    with False "1.prems" show ?thesis
      by (subst binary_search.simps) auto
  next
    case True
    let ?mid = "(left + right) div 2"
    have mid: "left \<le> ?mid" "?mid \<le> right" using True by auto
    with "1.prems" have inr: "0 \<le> ?mid" "?mid < int (length ix)" by auto
    then have get: "py_index ix ?mid = Inr (ix ! nat ?mid)" by (rule py_index_in_range)
    have mono: "\<And>i j. 0 \<le> i \<Longrightarrow> i \<le> j \<Longrightarrow> j < int (length ix) \<Longrightarrow> fst (ix ! nat i) \<le> fst (ix ! nat j)"
    proof -
      fix i j :: int assume "0 \<le> i" "i \<le> j" "j < int (length ix)"
      then have "nat i \<le> nat j" "nat j < length (map fst ix)" by auto
      with "1.prems"(1) have "map fst ix ! nat i \<le> map fst ix ! nat j"
        by (rule sorted_nth_mono)
      with \<open>nat i \<le> nat j\<close> \<open>nat j < length (map fst ix)\<close> show "fst (ix ! nat i) \<le> fst (ix ! nat j)" by simp
    qed
    show ?thesis
    proof (cases "fst (ix ! nat ?mid) < t")
      case lt: True
      have below: "\<forall>i. 0 \<le> i \<and> i < ?mid + 1 \<longrightarrow> fst (ix ! nat i) < t"
      proof (intro allI impI)
        fix i assume "0 \<le> i \<and> i < ?mid + 1"
        then have "fst (ix ! nat i) \<le> fst (ix ! nat ?mid)" using inr by (intro mono) auto
        with lt show "fst (ix ! nat i) < t" by simp
      qed
      have "\<exists>l. binary_search t ix (?mid + 1) right = Inr (l, l - 1) \<and> 0 \<le> l \<and> l \<le> int (length ix)
           \<and> (\<forall>i. 0 \<le> i \<and> i < l \<longrightarrow> fst (ix ! nat i) < t)
           \<and> (\<forall>i. l \<le> i \<and> i < int (length ix) \<longrightarrow> t \<le> fst (ix ! nat i))"
        using "1.prems" mid inr below
        by (intro "1.IH"(1) [OF True get lt]) auto
      moreover have "binary_search t ix left right = binary_search t ix (?mid + 1) right"
        using True get lt by (subst binary_search.simps) simp
      ultimately show ?thesis by simp
    next
      case ge: False
      have above: "\<forall>i. ?mid - 1 < i \<and> i < int (length ix) \<longrightarrow> t \<le> fst (ix ! nat i)"
      proof (intro allI impI)
        fix i assume "?mid - 1 < i \<and> i < int (length ix)"
        then have "fst (ix ! nat ?mid) \<le> fst (ix ! nat i)" using inr by (intro mono) auto
        with ge show "t \<le> fst (ix ! nat i)" by simp
      qed
      have "\<exists>l. binary_search t ix left (?mid - 1) = Inr (l, l - 1) \<and> 0 \<le> l \<and> l \<le> int (length ix)
           \<and> (\<forall>i. 0 \<le> i \<and> i < l \<longrightarrow> fst (ix ! nat i) < t)
           \<and> (\<forall>i. l \<le> i \<and> i < int (length ix) \<longrightarrow> t \<le> fst (ix ! nat i))"
        using "1.prems" mid inr above
        by (intro "1.IH"(2) [OF True get ge]) auto
      moreover have "binary_search t ix left right = binary_search t ix left (?mid - 1)"
        using True get ge by (subst binary_search.simps) simp
      ultimately show ?thesis by simp
    qed
  qed
qed

lemma walk_left_eq:
  assumes "- 1 \<le> idx" "idx < int (length ix)"
  shows "walk_left t ix thr idx cs =
           Inr (cs @ map (candidate_of t)
                  (takeWhile (\<lambda>e. t - fst e \<le> thr) (rev (take (nat (idx + 1)) ix))))"
  using assms
proof (induction t ix thr idx cs rule: walk_left.induct)
  case (1 t ix thr idx cs)
  show ?case
  proof (cases "idx \<ge> 0")
    case False
    with "1.prems" have "idx = - 1" by simp
    then show ?thesis by (subst walk_left.simps) simp
  next
    case True
    with "1.prems" have get: "py_index ix idx = Inr (ix ! nat idx)"
      by (intro py_index_in_range) auto
    obtain ts c i m where e: "ix ! nat idx = (ts, c, i, m)" by (cases "ix ! nat idx") auto
    have n: "nat (idx + 1) = Suc (nat idx)" "nat idx < length ix" using True "1.prems" by auto
    have tk: "rev (take (nat (idx + 1)) ix) = (ts, c, i, m) # rev (take (nat idx) ix)"
      using n e by (simp add: take_Suc_conv_app_nth)
    show ?thesis
    proof (cases "t - ts > thr")
      case True
      then show ?thesis using \<open>idx \<ge> 0\<close> get e tk
        by (subst walk_left.simps) simp
    next
      case False
      have "walk_left t ix thr (idx - 1) (cs @ [(c, i, m, t - ts)]) =
              Inr ((cs @ [(c, i, m, t - ts)]) @ map (candidate_of t)
                (takeWhile (\<lambda>e. t - fst e \<le> thr) (rev (take (nat (idx - 1 + 1)) ix))))"
        using True "1.prems" False get e
        by (intro "1.IH" [OF True get]) auto
      then show ?thesis using \<open>idx \<ge> 0\<close> get e tk False
        by (subst walk_left.simps) (simp add: candidate_of_def)
    qed
  qed
qed

lemma walk_right_eq:
  assumes "0 \<le> idx" "idx \<le> int (length ix)"
  shows "walk_right t ix thr idx cs =
           Inr (cs @ map (candidate_of t)
                  (takeWhile (\<lambda>e. fst e - t \<le> thr) (drop (nat idx) ix)))"
  using assms
proof (induction t ix thr idx cs rule: walk_right.induct)
  case (1 t ix thr idx cs)
  show ?case
  proof (cases "idx < int (length ix)")
    case False
    with "1.prems" have "nat idx \<ge> length ix" by simp
    with False show ?thesis by (subst walk_right.simps) simp
  next
    case True
    with "1.prems" have get: "py_index ix idx = Inr (ix ! nat idx)"
      by (intro py_index_in_range) auto
    obtain ts c i m where e: "ix ! nat idx = (ts, c, i, m)" by (cases "ix ! nat idx") auto
    have n: "nat (idx + 1) = Suc (nat idx)" "nat idx < length ix" using True "1.prems" by auto
    have dr: "drop (nat idx) ix = (ts, c, i, m) # drop (nat (idx + 1)) ix"
      using n e Cons_nth_drop_Suc [of "nat idx" ix] by simp
    show ?thesis
    proof (cases "ts - t > thr")
      case gt: True
      then show ?thesis using True get e dr
        by (subst walk_right.simps) simp
    next
      case False
      have "walk_right t ix thr (idx + 1) (cs @ [(c, i, m, - (ts - t))]) =
              Inr ((cs @ [(c, i, m, - (ts - t))]) @ map (candidate_of t)
                (takeWhile (\<lambda>e. fst e - t \<le> thr) (drop (nat (idx + 1)) ix)))"
        using True "1.prems" False get e
        by (intro "1.IH" [OF True get]) auto
      then show ?thesis using True get e dr False
        by (subst walk_right.simps) (simp add: candidate_of_def)
    qed
  qed
qed

lemma min_by_key_in: "min_by_key k b xs \<in> set (b # xs)"
  by (induction xs arbitrary: b) auto

lemma min_by_key_le: "\<forall>y\<in>set (b # xs). k (min_by_key k b xs) \<le> k y"
proof (induction xs arbitrary: b)
  case Nil
  then show ?case by simp
next
  case (Cons x xs)
  let ?b = "if k x < k b then x else b"
  have ih: "\<forall>y\<in>set (?b # xs). k (min_by_key k ?b xs) \<le> k y" by (rule Cons.IH)
  then have "k (min_by_key k ?b xs) \<le> k ?b" by simp
  moreover have "k ?b \<le> k b" "k ?b \<le> k x" by auto
  ultimately have "k (min_by_key k ?b xs) \<le> k b" "k (min_by_key k ?b xs) \<le> k x" by linarith+
  with ih show ?case by simp
qed

lemma takeWhile_eq_filter_mono:
  "sorted_wrt (\<lambda>x y. P y \<longrightarrow> P x) xs \<Longrightarrow> takeWhile P xs = filter P xs"
proof (induction xs)
  case Nil
  then show ?case by simp
next
  case (Cons x xs)
  show ?case
  proof (cases "P x")
    case True
    with Cons show ?thesis by simp
  next
    case False
    with Cons.prems have "\<forall>y\<in>set xs. \<not> P y" by auto
    then have "filter P xs = []" by (simp add: filter_empty_conv)
    with False show ?thesis by simp
  qed
qed

lemma diff_of_candidate_of: "diff_of (candidate_of t e) = t - fst e"
  by (simp add: diff_of_def candidate_of_def)

lemma find_closest_candidates:
  assumes srt: "sorted (map fst ix)"
  shows "\<exists>cands. set cands = candidate_of t ` {e \<in> set ix. \<bar>t - fst e\<bar> \<le> thr}
           \<and> find_closest_message_binary t ix thr =
               Inr (case cands of [] \<Rightarrow> None
                    | c # cs \<Rightarrow> Some (min_by_key (\<lambda>x. \<bar>diff_of x\<bar>) c cs))"
proof (cases "ix = []")
  case True
  then show ?thesis
    by (intro exI [of _ "[]"]) (simp add: find_closest_message_binary_def)
next
  case False
  have "\<exists>l. binary_search t ix 0 (int (length ix) - 1) = Inr (l, l - 1) \<and> 0 \<le> l \<and> l \<le> int (length ix)
           \<and> (\<forall>i. 0 \<le> i \<and> i < l \<longrightarrow> fst (ix ! nat i) < t)
           \<and> (\<forall>i. l \<le> i \<and> i < int (length ix) \<longrightarrow> t \<le> fst (ix ! nat i))"
    using srt by (intro binary_search_split) auto
  then obtain l where bs: "binary_search t ix 0 (int (length ix) - 1) = Inr (l, l - 1)"
    and l: "0 \<le> l" "l \<le> int (length ix)"
    and lo: "\<forall>i. 0 \<le> i \<and> i < l \<longrightarrow> fst (ix ! nat i) < t"
    and hi: "\<forall>i. l \<le> i \<and> i < int (length ix) \<longrightarrow> t \<le> fst (ix ! nat i)"
    by blast
  define n where "n = nat l"
  let ?L = "takeWhile (\<lambda>e. t - fst e \<le> thr) (rev (take n ix))"
  let ?R = "takeWhile (\<lambda>e. fst e - t \<le> thr) (drop n ix)"
  define cands where "cands = map (candidate_of t) (?L @ ?R)"
  have wl: "walk_left t ix thr (l - 1) [] = Inr (map (candidate_of t) ?L)"
    using walk_left_eq [of "l - 1" ix t thr "[]"] l by (simp add: n_def)
  have wr: "walk_right t ix thr l (map (candidate_of t) ?L) = Inr cands"
    using walk_right_eq [of l ix t thr "map (candidate_of t) ?L"] l by (simp add: n_def cands_def)
  have res: "find_closest_message_binary t ix thr =
               Inr (case cands of [] \<Rightarrow> None
                    | c # cs \<Rightarrow> Some (min_by_key (\<lambda>x. \<bar>diff_of x\<bar>) c cs))"
    using False bs wl wr
    by (simp add: find_closest_message_binary_def split: list.splits)
  have sw: "sorted_wrt (\<lambda>x y. fst x \<le> fst y) ix"
    using srt by (simp add: sorted_map)
  have below: "fst e < t" if "e \<in> set (take n ix)" for e
  proof -
    from that obtain i where "i < length (take n ix)" "take n ix ! i = e"
      by (auto simp: in_set_conv_nth)
    then have "i < n" "ix ! i = e" by auto
    with lo [rule_format, of "int i"] l show ?thesis by (simp add: n_def)
  qed
  have above: "t \<le> fst e" if "e \<in> set (drop n ix)" for e
  proof -
    from that obtain i where i: "i < length (drop n ix)" "drop n ix ! i = e"
      by (auto simp: in_set_conv_nth)
    then have ni: "n + i < length ix" "ix ! (n + i) = e" by auto
    have "nat (int (n + i)) = n + i" by simp
    moreover have "l \<le> int (n + i)" "int (n + i) < int (length ix)"
      using l ni by (simp_all add: n_def)
    ultimately show ?thesis using hi [rule_format, of "int (n + i)"] ni(2) by metis

  qed
  have "sorted_wrt (\<lambda>x y. (t - fst x \<le> thr) \<longrightarrow> (t - fst y \<le> thr)) (take n ix)"
    by (rule sorted_wrt_mono_rel [OF _ sorted_wrt_take [OF sw]]) auto
  then have "sorted_wrt (\<lambda>x y. (t - fst y \<le> thr) \<longrightarrow> (t - fst x \<le> thr)) (rev (take n ix))"
    by (simp add: sorted_wrt_rev)
  then have L: "?L = filter (\<lambda>e. t - fst e \<le> thr) (rev (take n ix))"
    by (rule takeWhile_eq_filter_mono)
  have "sorted_wrt (\<lambda>x y. (fst y - t \<le> thr) \<longrightarrow> (fst x - t \<le> thr)) (drop n ix)"
    by (rule sorted_wrt_mono_rel [OF _ sorted_wrt_drop [OF sw]]) auto
  then have R: "?R = filter (\<lambda>e. fst e - t \<le> thr) (drop n ix)"
    by (rule takeWhile_eq_filter_mono)
  have setL: "set ?L = {e \<in> set (take n ix). \<bar>t - fst e\<bar> \<le> thr}"
    unfolding L using below by fastforce
  have setR: "set ?R = {e \<in> set (drop n ix). \<bar>t - fst e\<bar> \<le> thr}"
    unfolding R using above by fastforce
  have "set ix = set (take n ix) \<union> set (drop n ix)"
    using set_append [of "take n ix" "drop n ix"] by simp
  then have "set (?L @ ?R) = {e \<in> set ix. \<bar>t - fst e\<bar> \<le> thr}"
    using setL setR by auto
  then have "set cands = candidate_of t ` {e \<in> set ix. \<bar>t - fst e\<bar> \<le> thr}"
    unfolding cands_def by (simp only: set_map)
  with res show ?thesis by blast
qed

lemma find_closest_minimal:
  assumes "sorted (map fst ix)" and "\<exists>e\<in>set ix. \<bar>t - fst e\<bar> \<le> thr"
  shows "\<exists>e\<in>set ix. find_closest_message_binary t ix thr = Inr (Some (candidate_of t e))
           \<and> \<bar>t - fst e\<bar> \<le> thr \<and> (\<forall>e'\<in>set ix. \<bar>t - fst e\<bar> \<le> \<bar>t - fst e'\<bar>)"
proof -
  from find_closest_candidates [OF assms(1), of t thr] obtain cands where
    sc: "set cands = candidate_of t ` {e \<in> set ix. \<bar>t - fst e\<bar> \<le> thr}"
    and res: "find_closest_message_binary t ix thr =
               Inr (case cands of [] \<Rightarrow> None
                    | c # cs \<Rightarrow> Some (min_by_key (\<lambda>x. \<bar>diff_of x\<bar>) c cs))"
    by blast
  from assms(2) sc have "cands \<noteq> []" by auto
  then obtain c cs where cc: "cands = c # cs" by (cases cands) auto
  define r where "r = min_by_key (\<lambda>x. \<bar>diff_of x\<bar>) c cs"
  have "r \<in> set cands" unfolding r_def cc by (rule min_by_key_in)
  with sc obtain e where e: "e \<in> set ix" "\<bar>t - fst e\<bar> \<le> thr" "r = candidate_of t e" by auto
  have least: "\<bar>diff_of r\<bar> \<le> \<bar>diff_of y\<bar>" if "y \<in> set cands" for y
    using min_by_key_le [of c cs "\<lambda>x. \<bar>diff_of x\<bar>"] that unfolding r_def cc by blast
  have "\<bar>t - fst e\<bar> \<le> \<bar>t - fst e'\<bar>" if "e' \<in> set ix" for e'
  proof (cases "\<bar>t - fst e'\<bar> \<le> thr")
    case True
    with that sc have "candidate_of t e' \<in> set cands" by auto
    from least [OF this] show ?thesis by (simp add: e(3) diff_of_candidate_of)
  next
    case False
    with e(2) show ?thesis by linarith
  qed
  moreover have "find_closest_message_binary t ix thr = Inr (Some (candidate_of t e))"
    using res by (simp add: cc r_def [symmetric] e(3))
  ultimately show ?thesis using e(1,2) by blast
qed

lemma find_closest_none:
  assumes "sorted (map fst ix)" and "\<forall>e\<in>set ix. thr < \<bar>t - fst e\<bar>"
  shows "find_closest_message_binary t ix thr = Inr None"
proof -
  from find_closest_candidates [OF assms(1), of t thr] obtain cands where
    sc: "set cands = candidate_of t ` {e \<in> set ix. \<bar>t - fst e\<bar> \<le> thr}"
    and res: "find_closest_message_binary t ix thr =
               Inr (case cands of [] \<Rightarrow> None
                    | c # cs \<Rightarrow> Some (min_by_key (\<lambda>x. \<bar>diff_of x\<bar>) c cs))"
    by blast
  from assms(2) have "{e \<in> set ix. \<bar>t - fst e\<bar> \<le> thr} = {}" by fastforce
  with sc have "cands = []" by simp
  with res show ?thesis by simp
qed

section \<open>Claims about the closest-message search\<close>

text \<open>C1: on an index sorted by timestamp, when some entry lies within the threshold of the
  query, the search returns the candidate of an entry whose absolute difference to the query
  is minimal over the whole index; when the query equals some entry's timestamp, the returned
  difference is 0.\<close>

theorem closest_is_minimal:
  assumes "sorted (map fst timestamp_index)"
    and "\<exists>e\<in>set timestamp_index. \<bar>mp4_timestamp_ms - fst e\<bar> \<le> threshold_ms"
  shows "\<exists>e\<in>set timestamp_index.
           find_closest_message_binary mp4_timestamp_ms timestamp_index threshold_ms
             = Inr (Some (candidate_of mp4_timestamp_ms e))
           \<and> (\<forall>e'\<in>set timestamp_index.
                 \<bar>mp4_timestamp_ms - fst e\<bar> \<le> \<bar>mp4_timestamp_ms - fst e'\<bar>)
           \<and> ((\<exists>e'\<in>set timestamp_index. fst e' = mp4_timestamp_ms)
                 \<longrightarrow> diff_of (candidate_of mp4_timestamp_ms e) = 0)"
proof -
  from find_closest_minimal [OF assms] obtain e where e: "e \<in> set timestamp_index"
    "find_closest_message_binary mp4_timestamp_ms timestamp_index threshold_ms
       = Inr (Some (candidate_of mp4_timestamp_ms e))"
    "\<forall>e'\<in>set timestamp_index. \<bar>mp4_timestamp_ms - fst e\<bar> \<le> \<bar>mp4_timestamp_ms - fst e'\<bar>"
    by blast
  have "diff_of (candidate_of mp4_timestamp_ms e) = 0"
    if "\<exists>e'\<in>set timestamp_index. fst e' = mp4_timestamp_ms"
  proof -
    from that e(3) have "\<bar>mp4_timestamp_ms - fst e\<bar> \<le> 0" by fastforce
    then show ?thesis by (simp add: diff_of_candidate_of)
  qed
  with e show ?thesis by blast
qed

theorem closest_is_minimal_witness:
  "sorted (map fst [(1000, ''a'', 0, PNone), (2000, ''a'', 1, PNone), (2000, ''b'', 0, PNone),
                    (4000, ''b'', 1, PNone) :: index_entry])
   \<and> (\<exists>e\<in>set [(1000, ''a'', 0, PNone), (2000, ''a'', 1, PNone), (2000, ''b'', 0, PNone),
                 (4000, ''b'', 1, PNone) :: index_entry]. \<bar>2000 - fst e\<bar> \<le> 1)
   \<and> (\<exists>e\<in>set [(1000, ''a'', 0, PNone), (2000, ''a'', 1, PNone), (2000, ''b'', 0, PNone),
                 (4000, ''b'', 1, PNone) :: index_entry].
         find_closest_message_binary 2000
           [(1000, ''a'', 0, PNone), (2000, ''a'', 1, PNone), (2000, ''b'', 0, PNone),
            (4000, ''b'', 1, PNone)] 1
           = Inr (Some (candidate_of 2000 e))
         \<and> (\<forall>e'\<in>set [(1000, ''a'', 0, PNone), (2000, ''a'', 1, PNone), (2000, ''b'', 0, PNone),
                        (4000, ''b'', 1, PNone) :: index_entry].
               \<bar>2000 - fst e\<bar> \<le> \<bar>2000 - fst e'\<bar>)
         \<and> ((\<exists>e'\<in>set [(1000, ''a'', 0, PNone), (2000, ''a'', 1, PNone), (2000, ''b'', 0, PNone),
                         (4000, ''b'', 1, PNone) :: index_entry]. fst e' = 2000)
               \<longrightarrow> diff_of (candidate_of 2000 e) = 0))"
proof -
  let ?ix = "[(1000, ''a'', 0, PNone), (2000, ''a'', 1, PNone), (2000, ''b'', 0, PNone),
              (4000, ''b'', 1, PNone) :: index_entry]"
  have h1: "sorted (map fst ?ix)" by simp
  have h2: "\<exists>e\<in>set ?ix. \<bar>2000 - fst e\<bar> \<le> 1" by simp
  show ?thesis by (intro conjI h1 h2 closest_is_minimal [OF h1 h2])
qed

lemma closest_exact_example:
  "find_closest_message_binary 2000
     [(1000, ''a'', 0, PNone), (2000, ''a'', 1, PNone), (2000, ''b'', 0, PNone),
      (4000, ''b'', 1, PNone)] 1 = Inr (Some (''a'', 1, PNone, 0))"
  by code_simp

text \<open>C5: on a sorted index, a query farther than the threshold from every entry (in
  particular on the empty index) has no match.\<close>

theorem no_entry_within_threshold:
  assumes "sorted (map fst timestamp_index)"
    and "\<forall>e\<in>set timestamp_index. threshold_ms < \<bar>mp4_timestamp_ms - fst e\<bar>"
  shows "find_closest_message_binary mp4_timestamp_ms timestamp_index threshold_ms = Inr None"
  using assms by (rule find_closest_none)

theorem no_entry_within_threshold_witness:
  "sorted (map fst [(1000, ''a'', 0, PNone), (2000, ''a'', 1, PNone), (4000, ''b'', 1, PNone)
                    :: index_entry])
   \<and> list_all (\<lambda>e. 999 < \<bar>3000 - fst e\<bar>)
        [(1000, ''a'', 0, PNone), (2000, ''a'', 1, PNone), (4000, ''b'', 1, PNone)
         :: index_entry]
   \<and> find_closest_message_binary 3000
       [(1000, ''a'', 0, PNone), (2000, ''a'', 1, PNone), (4000, ''b'', 1, PNone)] 999 = Inr None
   \<and> find_closest_message_binary 3000 [] 999 = Inr None"
proof -
  let ?ix = "[(1000, ''a'', 0, PNone), (2000, ''a'', 1, PNone), (4000, ''b'', 1, PNone)
              :: index_entry]"
  have h1: "sorted (map fst ?ix)" by simp
  have la: "list_all (\<lambda>e. 999 < \<bar>3000 - fst e\<bar>) ?ix" by simp
  have h2: "\<forall>e\<in>set ?ix. 999 < \<bar>3000 - fst e\<bar>" by simp
  have e1: "sorted (map fst ([] :: index_entry list))" by simp
  have e2: "\<forall>e\<in>set ([] :: index_entry list). 999 < \<bar>3000 - fst e\<bar>" by simp
  show ?thesis
    by (intro conjI h1 la no_entry_within_threshold [OF h1 h2]
          no_entry_within_threshold [OF e1 e2])
qed

text \<open>C9: the threshold is inclusive. On a sorted index, when an entry lies at exactly the
  threshold from the query and no entry is closer, the search returns the candidate of an
  entry at exactly that distance (that very entry when it is the only one), not
  \<^verbatim>\<open>None\<close>.\<close>

theorem threshold_inclusive:
  assumes "sorted (map fst timestamp_index)"
    and "e \<in> set timestamp_index"
    and "\<bar>mp4_timestamp_ms - fst e\<bar> = threshold_ms"
    and "\<forall>e'\<in>set timestamp_index. threshold_ms \<le> \<bar>mp4_timestamp_ms - fst e'\<bar>"
  shows "\<exists>r\<in>set timestamp_index.
           find_closest_message_binary mp4_timestamp_ms timestamp_index threshold_ms
             = Inr (Some (candidate_of mp4_timestamp_ms r))
           \<and> \<bar>mp4_timestamp_ms - fst r\<bar> = threshold_ms
           \<and> ((\<forall>e'\<in>set timestamp_index. \<bar>mp4_timestamp_ms - fst e'\<bar> = threshold_ms \<longrightarrow> e' = e)
                 \<longrightarrow> r = e)"
proof -
  from assms(2,3) have "\<exists>e\<in>set timestamp_index. \<bar>mp4_timestamp_ms - fst e\<bar> \<le> threshold_ms"
    by auto
  from find_closest_minimal [OF assms(1) this] obtain r where r: "r \<in> set timestamp_index"
    "find_closest_message_binary mp4_timestamp_ms timestamp_index threshold_ms
       = Inr (Some (candidate_of mp4_timestamp_ms r))"
    "\<bar>mp4_timestamp_ms - fst r\<bar> \<le> threshold_ms"
    by blast
  from r(1) assms(4) have "threshold_ms \<le> \<bar>mp4_timestamp_ms - fst r\<bar>" by blast
  with r(3) have "\<bar>mp4_timestamp_ms - fst r\<bar> = threshold_ms" by simp
  with r(1,2) show ?thesis by blast
qed

theorem threshold_inclusive_witness:
  "sorted (map fst [(1000, ''a'', 0, PNone), (2000, ''a'', 1, PNone), (4500, ''b'', 1, PNone)
                    :: index_entry])
   \<and> (2000, ''a'', 1, PNone) \<in> set [(1000, ''a'', 0, PNone), (2000, ''a'', 1, PNone),
                                     (4500, ''b'', 1, PNone) :: index_entry]
   \<and> \<bar>3000 - fst ((2000, ''a'', 1, PNone) :: index_entry)\<bar> = 1000
   \<and> list_all (\<lambda>e'. 1000 \<le> \<bar>3000 - fst e'\<bar>)
        [(1000, ''a'', 0, PNone), (2000, ''a'', 1, PNone), (4500, ''b'', 1, PNone)
         :: index_entry]
   \<and> find_closest_message_binary 3000
       [(1000, ''a'', 0, PNone), (2000, ''a'', 1, PNone), (4500, ''b'', 1, PNone)] 1000
       = Inr (Some (''a'', 1, PNone, 1000))"
proof -
  let ?ix = "[(1000, ''a'', 0, PNone), (2000, ''a'', 1, PNone), (4500, ''b'', 1, PNone)
              :: index_entry]"
  let ?e = "(2000, ''a'', 1, PNone) :: index_entry"
  have h1: "sorted (map fst ?ix)" by simp
  have h2: "?e \<in> set ?ix" by simp
  have h3: "\<bar>3000 - fst ?e\<bar> = 1000" by simp
  have la: "list_all (\<lambda>e'. 1000 \<le> \<bar>3000 - fst e'\<bar>) ?ix" by simp
  have h4: "\<forall>e'\<in>set ?ix. 1000 \<le> \<bar>3000 - fst e'\<bar>" by simp
  have only: "\<forall>e'\<in>set ?ix. \<bar>3000 - fst e'\<bar> = 1000 \<longrightarrow> e' = ?e" by simp
  from threshold_inclusive [OF h1 h2 h3 h4] only
  have "find_closest_message_binary 3000 ?ix 1000 = Inr (Some (candidate_of 3000 ?e))"
    by blast
  then have "find_closest_message_binary 3000 ?ix 1000 = Inr (Some (''a'', 1, PNone, 1000))"
    by (simp add: candidate_of_def)
  with h1 h2 h3 la show ?thesis by (intro conjI)
qed


section \<open>The timestamp index\<close>

lemma index_message_entries:
  assumes "index_message p c i m = Inr es" "e \<in> set es"
  shows "\<exists>t d. e = (t, c, i, m) \<and> m = PDict d \<and> \<not> truthy (dict_get d ''matched_media_files'')"
  using assms
  by (auto simp: index_message_def Let_def split: pyval.splits if_splits sum.splits py_exc.splits)

lemma index_message_list_entries:
  assumes "index_message_list p c k ms = Inr es" "e \<in> set es"
  shows "\<exists>t j d. j < length ms \<and> e = (t, c, k + j, ms ! j) \<and> ms ! j = PDict d
           \<and> \<not> truthy (dict_get d ''matched_media_files'')"
  using assms
proof (induction ms arbitrary: k es)
  case Nil
  then show ?case by simp
next
  case (Cons m ms)
  from Cons.prems(1) obtain es1 es2 where
    s: "index_message p c k m = Inr es1" "index_message_list p c (Suc k) ms = Inr es2"
       "es = es1 @ es2"
    by (auto split: sum.splits)
  from Cons.prems(2) s(3) consider "e \<in> set es1" | "e \<in> set es2" by auto
  then show ?case
  proof cases
    case 1
    from index_message_entries [OF s(1) 1] obtain t d where
      "e = (t, c, k, m)" "m = PDict d" "\<not> truthy (dict_get d ''matched_media_files'')" by blast
    then show ?thesis by (intro exI [of _ t] exI [of _ 0] exI [of _ d]) simp
  next
    case 2
    from Cons.IH [OF s(2) 2] obtain t j d where
      "j < length ms" "e = (t, c, Suc k + j, ms ! j)" "ms ! j = PDict d"
      "\<not> truthy (dict_get d ''matched_media_files'')" by blast
    then show ?thesis by (intro exI [of _ t] exI [of _ "Suc j"] exI [of _ d]) simp
  qed
qed

lemma index_conversations_entries:
  assumes "index_conversations p messages = Inr es" "e \<in> set es"
  shows "\<exists>t c i m. e = (t, c, i, m) \<and> unmarked_message_at messages c i m"
  using assms
proof (induction messages arbitrary: es)
  case Nil
  then show ?case by simp
next
  case (Cons cm rest)
  obtain c v where cm: "cm = (c, v)" by (cases cm)
  from Cons.prems(1) cm obtain es1 es2 where
    s: "(case v of PList ms \<Rightarrow> index_message_list p c 0 ms | _ \<Rightarrow> Inr []) = Inr es1"
       "index_conversations p rest = Inr es2" "es = es1 @ es2"
    by (auto split: sum.splits)
  from Cons.prems(2) s(3) consider "e \<in> set es1" | "e \<in> set es2" by auto
  then show ?case
  proof cases
    case 1
    with s(1) obtain ms where v: "v = PList ms" and l: "index_message_list p c 0 ms = Inr es1"
      by (cases v) auto
    from index_message_list_entries [OF l 1] obtain t j d where
      "j < length ms" "e = (t, c, j, ms ! j)" "ms ! j = PDict d"
      "\<not> truthy (dict_get d ''matched_media_files'')" by auto
    then show ?thesis using cm v
      by (auto simp: unmarked_message_at_def intro!: exI [of _ ms])
  next
    case 2
    from Cons.IH [OF s(2) 2] obtain t c' i m where
      "e = (t, c', i, m)" "unmarked_message_at rest c' i m" by blast
    then show ?thesis by (auto simp: unmarked_message_at_def)
  qed
qed

lemma build_index_sorted:
  "build_millisecond_index p messages = Inr ix \<Longrightarrow> sorted (map fst ix)"
  by (auto simp: build_millisecond_index_def split: sum.splits)

lemma build_index_entries:
  assumes "build_millisecond_index p messages = Inr ix" "(t, c, i, m) \<in> set ix"
  shows "unmarked_message_at messages c i m"
proof -
  from assms(1) obtain es where es: "index_conversations p messages = Inr es" "ix = sort_key fst es"
    by (auto simp: build_millisecond_index_def split: sum.splits)
  with assms(2) have "(t, c, i, m) \<in> set es" by simp
  from index_conversations_entries [OF es(1) this] show ?thesis by simp
qed

text \<open>The only exception that leaves the index builder is the OverflowError of an
  infinite float timestamp.\<close>

lemma py_int_no_index_error: "py_int p v \<noteq> Inl IndexError"
  by (induction p v rule: py_int.induct) (auto split: option.splits)

lemma index_message_exc: "index_message p c i m = Inl e \<Longrightarrow> e = OverflowError"
  using py_int_no_index_error [of p]
  by (auto simp: index_message_def Let_def
      split: pyval.splits if_splits sum.splits py_exc.splits)

lemma index_message_list_exc: "index_message_list p c k ms = Inl e \<Longrightarrow> e = OverflowError"
  by (induction ms arbitrary: k) (auto split: sum.splits dest: index_message_exc)

lemma index_conversations_exc: "index_conversations p messages = Inl e \<Longrightarrow> e = OverflowError"
  by (induction messages rule: index_conversations.induct)
     (auto split: sum.splits pyval.splits dest: index_message_list_exc)

lemma build_index_exc: "build_millisecond_index p messages = Inl e \<Longrightarrow> e = OverflowError"
  by (auto simp: build_millisecond_index_def split: sum.splits dest: index_conversations_exc)

lemma build_index_overflow_example:
  "build_millisecond_index (\<lambda>s. None)
     [(''c1'', PList [PDict [(''Created(microseconds)'', PFloat (Infinity False))]])]
   = Inl OverflowError"
  by (simp add: build_millisecond_index_def index_message_def dict_get_def)

text \<open>C6: when \<^verbatim>\<open>build_millisecond_index\<close> returns an index, its timestamps are
  non-decreasing along every adjacent pair, and every entry refers to a message of the corpus
  that carries no \<^verbatim>\<open>matched_media_files\<close> marker.\<close>

theorem index_sorted_and_unmarked:
  assumes "build_millisecond_index int_of_str messages = Inr timestamp_index"
  shows "(\<forall>i. Suc i < length timestamp_index
            \<longrightarrow> fst (timestamp_index ! i) \<le> fst (timestamp_index ! Suc i))
         \<and> (\<forall>(timestamp_ms, conv_id, idx, message) \<in> set timestamp_index.
              unmarked_message_at messages conv_id idx message)"
proof -
  have s: "sorted (map fst timestamp_index)" using assms by (rule build_index_sorted)
  have "fst (timestamp_index ! i) \<le> fst (timestamp_index ! Suc i)"
    if "Suc i < length timestamp_index" for i
    using sorted_nth_mono [OF s, of i "Suc i"] that by simp
  moreover have "unmarked_message_at messages c i m" if "(t, c, i, m) \<in> set timestamp_index" for t c i m
    using assms that by (rule build_index_entries)
  ultimately show ?thesis by auto
qed


theorem index_sorted_and_unmarked_witness:
  "build_millisecond_index (\<lambda>s. None)
     [(''c1'', PList [PDict [(''Created(microseconds)'', PInt 3000)],
                      PStr ''x'',
                      PDict [(''Created(microseconds)'', PInt 1000),
                             (''matched_media_files'', PList [PStr ''f.mp4''])],
                      PDict [(''Created(microseconds)'', PInt 1000)]]),
      (''c2'', PInt 3),
      (''c3'', PList [PDict [(''Created(microseconds)'', PFloat (Finite 5 2))]])]
    = Inr [(20, ''c3'', 0, PDict [(''Created(microseconds)'', PFloat (Finite 5 2))]),
           (1000, ''c1'', 3, PDict [(''Created(microseconds)'', PInt 1000)]),
           (3000, ''c1'', 0, PDict [(''Created(microseconds)'', PInt 3000)])]
   \<and> (20 :: int) \<le> 1000 \<and> (1000 :: int) \<le> 3000
   \<and> unmarked_message_at
        [(''c1'', PList [PDict [(''Created(microseconds)'', PInt 3000)],
                         PStr ''x'',
                         PDict [(''Created(microseconds)'', PInt 1000),
                                (''matched_media_files'', PList [PStr ''f.mp4''])],
                         PDict [(''Created(microseconds)'', PInt 1000)]]),
         (''c2'', PInt 3),
         (''c3'', PList [PDict [(''Created(microseconds)'', PFloat (Finite 5 2))]])]
        ''c1'' 3 (PDict [(''Created(microseconds)'', PInt 1000)])"
proof -
  let ?msgs = "[(''c1'', PList [PDict [(''Created(microseconds)'', PInt 3000)],
                      PStr ''x'',
                      PDict [(''Created(microseconds)'', PInt 1000),
                             (''matched_media_files'', PList [PStr ''f.mp4''])],
                      PDict [(''Created(microseconds)'', PInt 1000)]]),
      (''c2'', PInt 3),
      (''c3'', PList [PDict [(''Created(microseconds)'', PFloat (Finite 5 2))]])]"
  let ?ix = "[(20, ''c3'', 0, PDict [(''Created(microseconds)'', PFloat (Finite 5 2))]),
           (1000, ''c1'', 3, PDict [(''Created(microseconds)'', PInt 1000)]),
           (3000, ''c1'', 0, PDict [(''Created(microseconds)'', PInt 3000)])] :: index_entry list"
  have h: "build_millisecond_index (\<lambda>s. None) ?msgs = Inr ?ix"
    by (simp add: build_millisecond_index_def index_message_def dict_get_def)
  note r = index_sorted_and_unmarked [OF h]
  from r have a: "fst (?ix ! 0) \<le> fst (?ix ! Suc 0)" by simp
  from r have b: "fst (?ix ! 1) \<le> fst (?ix ! Suc 1)" by simp
  from r have c: "unmarked_message_at ?msgs ''c1'' 3 (PDict [(''Created(microseconds)'', PInt 1000)])"
    by simp
  from a b c h show ?thesis by simp
qed

section \<open>The batch matcher\<close>

lemma find_closest_some:
  assumes "sorted (map fst ix)" and "find_closest_message_binary t ix thr = Inr (Some r)"
  shows "\<exists>e\<in>set ix. r = candidate_of t e \<and> \<bar>t - fst e\<bar> \<le> thr"
proof -
  from find_closest_candidates [OF assms(1), of t thr] obtain cands where
    sc: "set cands = candidate_of t ` {e \<in> set ix. \<bar>t - fst e\<bar> \<le> thr}"
    and res: "find_closest_message_binary t ix thr =
               Inr (case cands of [] \<Rightarrow> None
                    | c # cs \<Rightarrow> Some (min_by_key (\<lambda>x. \<bar>diff_of x\<bar>) c cs))"
    by blast
  from res assms(2) obtain c cs where cc: "cands = c # cs"
    and r: "r = min_by_key (\<lambda>x. \<bar>diff_of x\<bar>) c cs"
    by (cases cands) auto
  have "r \<in> set cands" unfolding r cc by (rule min_by_key_in)
  with sc show ?thesis by auto
qed

lemma match_files_origin:
  assumes "match_files ix thr files m0 = Some (Inr m)" and "m fname = Some (c, i, d)"
  shows "m0 fname = Some (c, i, d)
         \<or> (\<exists>f\<in>set files. \<exists>t msg. name f = fname \<and> extract_mp4_timestamp f = Some (Some t)
               \<and> t \<noteq> 0 \<and> find_closest_message_binary t ix thr = Inr (Some (c, i, msg, d)))"
  using assms
proof (induction files arbitrary: m0)
  case Nil
  then show ?case by simp
next
  case (Cons f files)
  show ?case
  proof (cases "extract_mp4_timestamp f")
    case None
    with Cons.prems show ?thesis by simp
  next
    case (Some ts)
    show ?thesis
    proof (cases "\<exists>t r. ts = Some t \<and> t \<noteq> 0 \<and> find_closest_message_binary t ix thr = Inr (Some r)")
      case False
      with Some Cons.prems(1) have "match_files ix thr files m0 = Some (Inr m)"
        by (auto split: option.splits sum.splits if_splits)
      from Cons.IH [OF this Cons.prems(2)] show ?thesis by auto
    next
      case True
      then obtain t c' i' msg' d' where t: "ts = Some t" "t \<noteq> 0"
        "find_closest_message_binary t ix thr = Inr (Some (c', i', msg', d'))"
        by (metis prod_cases4)
      with Some Cons.prems(1) have
        "match_files ix thr files (m0(name f \<mapsto> (c', i', d'))) = Some (Inr m)" by simp
      from Cons.IH [OF this Cons.prems(2)] show ?thesis
        using Some t by (auto split: if_splits)
    qed
  qed
qed

lemma match_files_skip:
  assumes "extract_mp4_timestamp f = Some (Some 0) \<or> extract_mp4_timestamp f = Some None"
  shows "match_files ix thr (pre @ f # post) m = match_files ix thr (pre @ post) m"
proof (induction pre arbitrary: m)
  case Nil
  from assms show ?case by auto
next
  case (Cons a pre)
  then show ?case
    by (simp split: option.splits sum.splits prod.splits add: fun_upd_def)
qed

lemma unix_ms_zero_iff:
  "unix_ms_of_creation_time ct = Some 0 \<longleftrightarrow> ct = QUICKTIME_EPOCH_ADJUSTER"
  by (auto simp: unix_ms_of_creation_time_def QUICKTIME_EPOCH_ADJUSTER_def)

lemma parse_binary_zero_iff:
  "parse_mp4_timestamp_binary file_bytes = Some (Some 0) \<longleftrightarrow>
     (\<exists>bytes pos. file_bytes = Some bytes \<and> find_moov bytes 0 = Some (Some pos)
        \<and> mvhd_creation_time bytes pos = Some QUICKTIME_EPOCH_ADJUSTER)"
  by (auto simp: parse_mp4_timestamp_binary_def unix_ms_zero_iff split: option.splits)

lemma matched_origin:
  assumes "match_mp4_timestamps p files completed messages ths par = Some (Inr m)"
    and "m fname = Some (c, i, d)"
  shows "\<exists>ix f t msg. build_millisecond_index p messages = Inr ix
           \<and> f \<in> set files \<union> set completed \<and> name f = fname
           \<and> extract_mp4_timestamp f = Some (Some t) \<and> t \<noteq> 0
           \<and> find_closest_message_binary t ix (ths * 1000) = Inr (Some (c, i, msg, d))"
proof -
  from assms(1) obtain ix where ix: "build_millisecond_index p messages = Inr ix"
    by (auto simp: match_mp4_timestamps_def split: sum.splits)
  have ne: "ix \<noteq> []"
  proof
    assume "ix = []"
    with assms(1) ix have "m = Map.empty" by (simp add: match_mp4_timestamps_def)
    with assms(2) show False by simp
  qed
  define L where "L = (if par \<and> length files > 10 then completed else files)"
  from assms(1) ix ne have "match_files ix (ths * 1000) L Map.empty = Some (Inr m)"
    by (auto simp: match_mp4_timestamps_def L_def split: if_splits)
  from match_files_origin [OF this assms(2)] obtain f t msg where
    "f \<in> set L" "name f = fname" "extract_mp4_timestamp f = Some (Some t)" "t \<noteq> 0"
    "find_closest_message_binary t ix (ths * 1000) = Inr (Some (c, i, msg, d))"
    by auto
  moreover from \<open>f \<in> set L\<close> have "f \<in> set files \<union> set completed"
    by (auto simp: L_def split: if_splits)
  ultimately show ?thesis using ix by blast
qed

text \<open>C3 (amended): within one batch call every file name is assigned at most one message
  (the result is a dictionary keyed by file name), and every message it is assigned is a
  message of the corpus that carried no \<^verbatim>\<open>matched_media_files\<close> marker when the index was
  built, at a distance within the threshold. The index is built once and not updated during
  the batch, so several files may be assigned the same message.\<close>

theorem match_refers_to_unmarked_message:
  assumes "match_mp4_timestamps int_of_str mp4_files completed messages threshold_seconds
             use_parallel = Some (Inr matches)"
    and "matches filename = Some (conv_id, msg_idx, diff_ms)"
  shows "(\<exists>message. unmarked_message_at messages conv_id msg_idx message)
         \<and> \<bar>diff_ms\<bar> \<le> threshold_seconds * 1000"
proof -
  from matched_origin [OF assms] obtain ix t msg where
    ix: "build_millisecond_index int_of_str messages = Inr ix"
    and fc: "find_closest_message_binary t ix (threshold_seconds * 1000)
               = Inr (Some (conv_id, msg_idx, msg, diff_ms))"
    by blast
  have "sorted (map fst ix)" using ix by (rule build_index_sorted)
  from find_closest_some [OF this fc] obtain e where e: "e \<in> set ix"
    "(conv_id, msg_idx, msg, diff_ms) = candidate_of t e"
    "\<bar>t - fst e\<bar> \<le> threshold_seconds * 1000"
    by blast
  obtain ts where "e = (ts, conv_id, msg_idx, msg)" "diff_ms = t - ts"
    using e(2) by (cases e) (auto simp: candidate_of_def)
  with e(1,3) build_index_entries [OF ix, of ts conv_id msg_idx msg]
  show ?thesis by auto
qed

theorem match_refers_to_unmarked_message_witness:
  "match_mp4_timestamps (\<lambda>s. None)
     [\<lparr>name = ''a.mp4'', content = None, ffprobe_ms = Some 1000\<rparr>,
      \<lparr>name = ''b.mp4'', content = None, ffprobe_ms = Some 1200\<rparr>] []
     [(''c1'', PList [PDict [(''Created(microseconds)'', PInt 1100)]])] 10 False
    = Some (Inr [''a.mp4'' \<mapsto> (''c1'', 0, - 100), ''b.mp4'' \<mapsto> (''c1'', 0, 100)])
   \<and> (\<exists>message. unmarked_message_at
          [(''c1'', PList [PDict [(''Created(microseconds)'', PInt 1100)]])] ''c1'' 0 message)
   \<and> \<bar>100 :: int\<bar> \<le> 10 * 1000"
proof -
  let ?fs = "[\<lparr>name = ''a.mp4'', content = None, ffprobe_ms = Some 1000\<rparr>,
      \<lparr>name = ''b.mp4'', content = None, ffprobe_ms = Some 1200\<rparr>]"
  let ?msgs = "[(''c1'', PList [PDict [(''Created(microseconds)'', PInt 1100)]])]"
  let ?m = "[''a.mp4'' \<mapsto> (''c1'', 0 :: nat, - 100 :: int), ''b.mp4'' \<mapsto> (''c1'', 0, 100)]"
  have h1: "match_mp4_timestamps (\<lambda>s. None) ?fs [] ?msgs 10 False = Some (Inr ?m)"
    by (simp add: match_mp4_timestamps_def build_millisecond_index_def index_message_def
          dict_get_def extract_mp4_timestamp_def parse_mp4_timestamp_binary_def
          find_closest_message_binary_def py_index_def diff_of_def)
  have h2: "?m ''b.mp4'' = Some (''c1'', 0, 100)" by simp
  from match_refers_to_unmarked_message [OF h1 h2] h1 show ?thesis by simp
qed

text \<open>C3 as stated fails: two files 100 ms before and after the only message are both
  assigned that message.\<close>

theorem two_files_one_message_counterexample:
  "matched_to
     (match_mp4_timestamps (\<lambda>s. None)
        [\<lparr>name = ''a.mp4'', content = None, ffprobe_ms = Some 1000\<rparr>,
         \<lparr>name = ''b.mp4'', content = None, ffprobe_ms = Some 1200\<rparr>] []
        [(''c1'', PList [PDict [(''Created(microseconds)'', PInt 1100)]])] 10 False)
     ''a.mp4'' = Some (''c1'', 0, - 100)
   \<and> matched_to
     (match_mp4_timestamps (\<lambda>s. None)
        [\<lparr>name = ''a.mp4'', content = None, ffprobe_ms = Some 1000\<rparr>,
         \<lparr>name = ''b.mp4'', content = None, ffprobe_ms = Some 1200\<rparr>] []
        [(''c1'', PList [PDict [(''Created(microseconds)'', PInt 1100)]])] 10 False)
     ''b.mp4'' = Some (''c1'', 0, 100)
   \<and> ''a.mp4'' \<noteq> ''b.mp4''"
  by (simp add: matched_to_def match_mp4_timestamps_def build_millisecond_index_def
        index_message_def dict_get_def extract_mp4_timestamp_def parse_mp4_timestamp_binary_def
        find_closest_message_binary_def py_index_def diff_of_def)

lemma match_batch_unfold:
  "match_mp4_timestamps p files completed messages ths par =
     (case build_millisecond_index p messages of
        Inl e \<Rightarrow> Some (Inl e)
      | Inr ix \<Rightarrow>
          if ix = [] then Some (Inr Map.empty)
          else match_files ix (ths * 1000)
                 (if par \<and> length files > 10 then completed else files) Map.empty)"
  by (simp add: match_mp4_timestamps_def split: sum.splits)

lemma match_batch_skip:
  assumes "extract_mp4_timestamp f = Some (Some 0) \<or> extract_mp4_timestamp f = Some None"
  shows "match_mp4_timestamps p (pre @ f # post) (cpre @ f # cpost) messages ths par =
           (case build_millisecond_index p messages of
              Inl e \<Rightarrow> Some (Inl e)
            | Inr ix \<Rightarrow>
                if ix = [] then Some (Inr Map.empty)
                else match_files ix (ths * 1000)
                       (if par \<and> Suc (length pre + length post) > 10
                        then cpre @ cpost else pre @ post) Map.empty)"
proof (cases "par \<and> Suc (length pre + length post) > 10")
  case True
  then have "(if par \<and> length (pre @ f # post) > 10 then cpre @ f # cpost else pre @ f # post)
               = cpre @ f # cpost" by simp
  then show ?thesis using True
    unfolding match_batch_unfold
    by (simp only: match_files_skip [OF assms] if_True split: sum.splits, simp?)
next
  case False
  then have "(if par \<and> length (pre @ f # post) > 10 then cpre @ f # cpost else pre @ f # post)
               = pre @ f # post" by auto
  then show ?thesis using False
    unfolding match_batch_unfold
    by (simp only: match_files_skip [OF assms] if_False split: sum.splits, simp?)
qed

text \<open>C10: a file whose extracted timestamp is exactly 0 is treated by the batch as a file
  with no extractable timestamp: replacing it by such a file leaves the result unchanged, and
  its name is not a key of the returned mapping (unless another file of the batch bears the
  same name). The binary parser yields 0 exactly when it reaches the creation-time field and
  the field equals the epoch adjuster 2082844800.\<close>

theorem zero_timestamp_skipped:
  assumes "extract_mp4_timestamp f = Some (Some 0)"
    and "extract_mp4_timestamp g = Some None"
  shows "match_mp4_timestamps int_of_str (pre @ f # post) (cpre @ f # cpost) messages
           threshold_seconds use_parallel
         = match_mp4_timestamps int_of_str (pre @ g # post) (cpre @ g # cpost) messages
             threshold_seconds use_parallel
       \<and> (name f \<notin> name ` (set pre \<union> set post \<union> set cpre \<union> set cpost)
            \<longrightarrow> matched_to (match_mp4_timestamps int_of_str (pre @ f # post) (cpre @ f # cpost)
                              messages threshold_seconds use_parallel) (name f) = None)
       \<and> (parse_mp4_timestamp_binary (content f) = Some (Some 0) \<longleftrightarrow>
            (\<exists>bytes pos. content f = Some bytes \<and> find_moov bytes 0 = Some (Some pos)
               \<and> mvhd_creation_time bytes pos = Some QUICKTIME_EPOCH_ADJUSTER))
       \<and> QUICKTIME_EPOCH_ADJUSTER = 2082844800"
proof -
  let ?rf = "match_mp4_timestamps int_of_str (pre @ f # post) (cpre @ f # cpost) messages
               threshold_seconds use_parallel"
  have sf: "extract_mp4_timestamp f = Some (Some 0) \<or> extract_mp4_timestamp f = Some None"
    using assms(1) by simp
  have sg: "extract_mp4_timestamp g = Some (Some 0) \<or> extract_mp4_timestamp g = Some None"
    using assms(2) by simp
  have same: "?rf = match_mp4_timestamps int_of_str (pre @ g # post) (cpre @ g # cpost) messages
                      threshold_seconds use_parallel"
    by (simp add: match_batch_skip [OF sf] match_batch_skip [OF sg])
  have absent: "matched_to ?rf (name f) = None"
    if fresh: "name f \<notin> name ` (set pre \<union> set post \<union> set cpre \<union> set cpost)"
  proof (rule ccontr)
    assume "matched_to ?rf (name f) \<noteq> None"
    then obtain m c i d where m: "?rf = Some (Inr m)" "m (name f) = Some (c, i, d)"
      by (auto simp: matched_to_def split: option.splits sum.splits)
    define L where "L = (if use_parallel \<and> Suc (length pre + length post) > 10
                         then cpre @ cpost else pre @ post)"
    have Ls: "set L \<subseteq> set pre \<union> set post \<union> set cpre \<union> set cpost"
      by (auto simp: L_def)
    from m(1) obtain ix where
      "match_files ix (threshold_seconds * 1000) L Map.empty = Some (Inr m) \<or> m = Map.empty"
      unfolding match_batch_skip [OF sf] L_def [symmetric]
      by (auto split: sum.splits if_splits)
    note L = Ls this
    from L(2) m(2) have "match_files ix (threshold_seconds * 1000) L Map.empty = Some (Inr m)"
      by auto
    from match_files_origin [OF this m(2)] obtain h where h: "h \<in> set L" "name h = name f"
      by auto
    from h(1) L(1) have "h \<in> set pre \<union> set post \<union> set cpre \<union> set cpost" by blast
    then have "name h \<in> name ` (set pre \<union> set post \<union> set cpre \<union> set cpost)"
      by (rule imageI)
    with fresh h(2) show False by simp
  qed
  show ?thesis
    using same absent parse_binary_zero_iff [of "content f"]
    by (simp add: QUICKTIME_EPOCH_ADJUSTER_def)
qed

theorem zero_timestamp_skipped_witness:
  "extract_mp4_timestamp
     \<lparr>name = ''z.mp4'',
      content = Some [0,0,0,0x10, 0x66,0x74,0x79,0x70, 0x69,0x73,0x6F,0x6D, 0,0,0,0,
                      0,0,0,0x6C, 0x6D,0x6F,0x6F,0x76,
                      0,0,0,0x6C, 0x6D,0x76,0x68,0x64, 0, 0,0,0, 0x7C,0x25,0xB0,0x80],
      ffprobe_ms = Some 1100\<rparr> = Some (Some 0)
   \<and> extract_mp4_timestamp \<lparr>name = ''z.mp4'', content = None, ffprobe_ms = None\<rparr> = Some None
   \<and> matched_to
       (match_mp4_timestamps (\<lambda>s. None)
          ([\<lparr>name = ''a.mp4'', content = None, ffprobe_ms = Some 1000\<rparr>]
           @ \<lparr>name = ''z.mp4'',
               content = Some [0,0,0,0x10, 0x66,0x74,0x79,0x70, 0x69,0x73,0x6F,0x6D, 0,0,0,0,
                               0,0,0,0x6C, 0x6D,0x6F,0x6F,0x76,
                               0,0,0,0x6C, 0x6D,0x76,0x68,0x64, 0, 0,0,0, 0x7C,0x25,0xB0,0x80],
               ffprobe_ms = Some 1100\<rparr> # [])
          ([] @ \<lparr>name = ''z.mp4'',
               content = Some [0,0,0,0x10, 0x66,0x74,0x79,0x70, 0x69,0x73,0x6F,0x6D, 0,0,0,0,
                               0,0,0,0x6C, 0x6D,0x6F,0x6F,0x76,
                               0,0,0,0x6C, 0x6D,0x76,0x68,0x64, 0, 0,0,0, 0x7C,0x25,0xB0,0x80],
               ffprobe_ms = Some 1100\<rparr> # [])
          [(''c1'', PList [PDict [(''Created(microseconds)'', PInt 1100)]])] 10 False)
       ''z.mp4'' = None"
proof -
  let ?z = "\<lparr>name = ''z.mp4'',
      content = Some [0,0,0,0x10, 0x66,0x74,0x79,0x70, 0x69,0x73,0x6F,0x6D, 0,0,0,0,
                      0,0,0,0x6C, 0x6D,0x6F,0x6F,0x76,
                      0,0,0,0x6C, 0x6D,0x76,0x68,0x64, 0, 0,0,0, 0x7C,0x25,0xB0,0x80],
      ffprobe_ms = Some 1100\<rparr>"
  let ?g = "\<lparr>name = ''z.mp4'', content = None, ffprobe_ms = None\<rparr>"
  let ?a = "\<lparr>name = ''a.mp4'', content = None, ffprobe_ms = Some 1000\<rparr>"
  have h1: "extract_mp4_timestamp ?z = Some (Some 0)"
    by (simp add: extract_mp4_timestamp_def parse_mp4_timestamp_binary_def find_moov.simps
          read_at_def ATOM_HEADER_SIZE_def be_uint_def seek_cur_def mvhd_creation_time_def
          unix_ms_of_creation_time_def QUICKTIME_EPOCH_ADJUSTER_def)
  have h2: "extract_mp4_timestamp ?g = Some None"
    by (simp add: extract_mp4_timestamp_def parse_mp4_timestamp_binary_def)
  have fresh: "name ?z \<notin> name ` (set [?a] \<union> set [] \<union> set [] \<union> set [])" by simp
  note r = zero_timestamp_skipped [OF h1 h2, of "\<lambda>s. None" "[?a]" "[]" "[]" "[]"
             "[(''c1'', PList [PDict [(''Created(microseconds)'', PInt 1100)]])]" 10 False]
  from r fresh have
    "matched_to
       (match_mp4_timestamps (\<lambda>s. None) ([?a] @ ?z # []) ([] @ ?z # [])
          [(''c1'', PList [PDict [(''Created(microseconds)'', PInt 1100)]])] 10 False)
       (name ?z) = None"
    by blast
  then have
    "matched_to
       (match_mp4_timestamps (\<lambda>s. None) ([?a] @ ?z # []) ([] @ ?z # [])
          [(''c1'', PList [PDict [(''Created(microseconds)'', PInt 1100)]])] 10 False)
       ''z.mp4'' = None"
    by simp
  with h1 h2 show ?thesis by (intro conjI)
qed

lemma zero_timestamp_example:
  "matched_to
     (match_mp4_timestamps (\<lambda>s. None)
        [\<lparr>name = ''z.mp4'',
          content = Some [0,0,0,0x6C, 0x6D,0x6F,0x6F,0x76,
                          0,0,0,0x6C, 0x6D,0x76,0x68,0x64, 0, 0,0,0, 0,0,0,1],
          ffprobe_ms = None\<rparr>] []
        [(''c1'', PList [PDict [(''Created(microseconds)'', PInt (- 2082844799000))]])] 10 False)
     ''z.mp4'' = Some (''c1'', 0, 0)"
  by (simp add: matched_to_def match_mp4_timestamps_def build_millisecond_index_def
        index_message_def dict_get_def extract_mp4_timestamp_def parse_mp4_timestamp_binary_def
        find_moov.simps read_at_def ATOM_HEADER_SIZE_def be_uint_def seek_cur_def
        mvhd_creation_time_def unix_ms_of_creation_time_def QUICKTIME_EPOCH_ADJUSTER_def
        find_closest_message_binary_def py_index_def diff_of_def)

end
